theory Spec2Isabelle
  imports Complex_Main "HOL-Library.Word"
begin

unbundle bit_operations_syntax

section \<open>Machine types of the Go source\<close>

text \<open>
  \<^verbatim>\<open>time.Duration\<close> is an \<^verbatim>\<open>int64\<close> count of nanoseconds: a 64-bit word read
  with \<open>sint\<close>, whose \<open>+\<close> wraps around. \<^verbatim>\<open>float64\<close> is the IEEE 754 binary64
  bit pattern: one sign bit, eleven exponent bits, fifty-two fraction bits.
\<close>

type_synonym Duration = "64 word"
type_synonym float64 = "64 word"

definition MaxInt64 :: Duration where
  "MaxInt64 = 0x7FFFFFFFFFFFFFFF"

definition MinInt64 :: Duration where
  "MinInt64 = 0x8000000000000000"

subsection \<open>binary64 values\<close>

text \<open>
  \<open>Finite s m e\<close> stands for \<open>(-1)\<^sup>s * m * 2\<^sup>e\<close>; the sign of a zero is kept.
\<close>

datatype fval = Finite bool nat int | Infinity bool | NaN

definition decode :: "float64 \<Rightarrow> fval" where
  "decode w =
     (let s = bit w 63;
          ex = unat (drop_bit 52 w AND 0x7FF);
          fr = unat (w AND 0xFFFFFFFFFFFFF)
      in if ex = 2047 then (if fr = 0 then Infinity s else NaN)
         else if ex = 0 then Finite s fr (- 1074)
         else Finite s (2 ^ 52 + fr) (int ex - 1075))"

fun pow2 :: "int \<Rightarrow> rat" where
  "pow2 e = (if 0 \<le> e then 2 ^ nat e else 1 / 2 ^ nat (- e))"

fun valof :: "fval \<Rightarrow> rat" where
  "valof (Finite s m e) = (if s then - 1 else 1) * of_nat m * pow2 e"
| "valof (Infinity s) = 0"
| "valof NaN = 0"

fun is_finite :: "fval \<Rightarrow> bool" where
  "is_finite (Finite s m e) = True"
| "is_finite (Infinity s) = False"
| "is_finite NaN = False"

fun bitlen :: "nat \<Rightarrow> nat" where
  "bitlen n = (if n = 0 then 0 else Suc (bitlen (n div 2)))"

declare bitlen.simps [simp del]

text \<open>
  Rounding of the exact magnitude \<open>m * 2\<^sup>e\<close> to the nearest binary64 value, ties to the
  even significand (the IEEE 754 default, which Go uses): the result keeps 53 significant
  bits, or fewer below the smallest normal exponent, and a magnitude that rounds to
  \<open>2\<^sup>1\<^sup>0\<^sup>2\<^sup>4\<close> or more becomes an infinity.
\<close>

definition exponent_of :: "nat \<Rightarrow> int \<Rightarrow> int" where
  "exponent_of m e = max (e + int (bitlen m) - 53) (- 1074)"

definition significand_of :: "nat \<Rightarrow> int \<Rightarrow> nat" where
  "significand_of m e =
     (let e' = exponent_of m e;
          k = nat (e' - e);
          q = m div 2 ^ k;
          r = m mod 2 ^ k
      in if e' \<le> e then m * 2 ^ nat (e - e')
         else if 2 ^ (k - 1) < r \<or> (r = 2 ^ (k - 1) \<and> odd q) then q + 1 else q)"

definition round_even :: "bool \<Rightarrow> nat \<Rightarrow> int \<Rightarrow> fval" where
  "round_even s m e =
     (if m = 0 then Finite s 0 0
      else
        let e' = exponent_of m e;
            m' = significand_of m e
        in if 971 < e' \<or> (e' = 971 \<and> 2 ^ 53 \<le> m') then Infinity s else Finite s m' e')"

text \<open>The conversion \<^verbatim>\<open>float64(x)\<close> of an \<^verbatim>\<open>int64\<close>.\<close>

definition of_int64 :: "Duration \<Rightarrow> fval" where
  "of_int64 c = round_even (sint c < 0) (nat \<bar>sint c\<bar>) 0"

text \<open>The product \<^verbatim>\<open>x * y\<close> of two \<^verbatim>\<open>float64\<close> values.\<close>

fun fmul :: "fval \<Rightarrow> fval \<Rightarrow> fval" where
  "fmul NaN y = NaN"
| "fmul x NaN = NaN"
| "fmul (Infinity s) (Infinity t) = Infinity (s \<noteq> t)"
| "fmul (Infinity s) (Finite t n d) = (if n = 0 then NaN else Infinity (s \<noteq> t))"
| "fmul (Finite s m e) (Infinity t) = (if m = 0 then NaN else Infinity (s \<noteq> t))"
| "fmul (Finite s m e) (Finite t n d) = round_even (s \<noteq> t) (m * n) (e + d)"

text \<open>
  The conversion \<^verbatim>\<open>int64(x)\<close> of a \<^verbatim>\<open>float64\<close> discards the fraction (it truncates
  towards zero). Where the value does not fit an \<^verbatim>\<open>int64\<close> (also for an infinity
  or a NaN) the Go specification leaves the result to the implementation; that choice is
  the parameter \<open>P\<close>. The amd64 instruction CVTTSD2SQ gives the smallest \<^verbatim>\<open>int64\<close>
  there; arm64's FCVTZS saturates and gives 0 for a NaN.
\<close>

type_synonym platform = "fval \<Rightarrow> Duration"

definition trunc_int :: "bool \<Rightarrow> nat \<Rightarrow> int \<Rightarrow> int" where
  "trunc_int s m e =
     (let t = (if 0 \<le> e then m * 2 ^ nat e else m div 2 ^ nat (- e))
      in if s then - int t else int t)"

fun to_int64 :: "platform \<Rightarrow> fval \<Rightarrow> Duration" where
  "to_int64 P (Finite s m e) =
     (let i = trunc_int s m e
      in if - (2 ^ 63) \<le> i \<and> i < 2 ^ 63 then word_of_int i else P (Finite s m e))"
| "to_int64 P (Infinity s) = P (Infinity s)"
| "to_int64 P NaN = P NaN"

definition amd64 :: platform where
  "amd64 x = MinInt64"

fun arm64 :: platform where
  "arm64 (Finite s m e) = (if s then MinInt64 else MaxInt64)"
| "arm64 (Infinity s) = (if s then MinInt64 else MaxInt64)"
| "arm64 NaN = 0"

subsection \<open>The random source\<close>

text \<open>
  \<^verbatim>\<open>rand.Int63n(n)\<close> of the standard library panics when \<open>n \<le> 0\<close> and otherwise
  returns a value of \<open>[0, n)\<close>, the remainder modulo \<open>n\<close> of a non-negative value
  \<open>r\<close> taken from the generator. \<open>r\<close> is an argument of the model.
\<close>

datatype panic = Panic

definition Int63n :: "Duration \<Rightarrow> nat \<Rightarrow> panic + Duration" where
  "Int63n n r = (if sint n \<le> 0 then Inl Panic else Inr (word_of_int (int r mod sint n)))"

section \<open>The calculator\<close>

text \<open>
  The struct \<^verbatim>\<open>Backoff\<close> without its mutex: the model runs one call at a time.
\<close>

record Backoff =
  initial :: Duration
  factor :: float64
  max_d :: Duration
  withJitter :: bool
  current :: Duration
  initialized :: bool

type_synonym Option = "Backoff \<Rightarrow> Backoff"

definition WithJitter :: "bool \<Rightarrow> Option" where
  "WithJitter enabled = (\<lambda>b. b\<lparr>withJitter := enabled\<rparr>)"

definition New :: "Duration \<Rightarrow> float64 \<Rightarrow> Duration \<Rightarrow> Option list \<Rightarrow> Backoff" where
  "New i f m opts =
     fold (\<lambda>opt b. opt b) opts
       \<lparr>initial = i, factor = f, max_d = m, withJitter = True,
        current = 0, initialized = False\<rparr>"

text \<open>\<^verbatim>\<open>time.Duration(float64(b.current) * b.factor)\<close>\<close>

definition grow :: "platform \<Rightarrow> Duration \<Rightarrow> float64 \<Rightarrow> Duration" where
  "grow P c f = to_int64 P (fmul (of_int64 c) (decode f))"

text \<open>
  \<^verbatim>\<open>Next\<close> returns what the call gives (a duration, or the panic of
  \<^verbatim>\<open>rand.Int63n\<close>) and the state it leaves: the fields are written before the draw,
  so they are written when the draw panics too.
\<close>

definition Next :: "platform \<Rightarrow> Backoff \<Rightarrow> nat \<Rightarrow> (panic + Duration) \<times> Backoff" where
  "Next P b r =
     (let b' = (if \<not> initialized b
                then b\<lparr>current := initial b, initialized := True\<rparr>
                else (let next = grow P (current b) (factor b);
                          next = (if sint (max_d b) < sint next then max_d b else next)
                      in b\<lparr>current := next\<rparr>))
      in (if withJitter b' then Int63n (current b' + 1) r else Inr (current b'), b'))"

definition Reset :: "Backoff \<Rightarrow> Backoff" where
  "Reset b = b\<lparr>initialized := False\<rparr>"

subsection \<open>Sequences of calls\<close>

text \<open>
  A call is \<^verbatim>\<open>Next\<close>, with the value its draw takes from the generator, or
  \<^verbatim>\<open>Reset\<close>. \<open>run\<close> lists what the \<^verbatim>\<open>Next\<close> calls give, in order. A panic
  leaves the calculator as \<^verbatim>\<open>Next\<close> wrote it, with the mutex released by the deferred
  \<^verbatim>\<open>Unlock\<close>; a caller that recovers can go on calling, so \<open>run\<close> goes on.
\<close>

datatype call = CallNext nat | CallReset

fun run :: "platform \<Rightarrow> Backoff \<Rightarrow> call list \<Rightarrow> (panic + Duration) list \<times> Backoff" where
  "run P b [] = ([], b)"
| "run P b (CallNext r # cs) =
     (fst (Next P b r) # fst (run P (snd (Next P b r)) cs), snd (run P (snd (Next P b r)) cs))"
| "run P b (CallReset # cs) = run P (Reset b) cs"

fun nexts :: "platform \<Rightarrow> Backoff \<Rightarrow> nat list \<Rightarrow> (panic + Duration) list" where
  "nexts P b [] = []"
| "nexts P b (r # rs) = fst (Next P b r) # nexts P (snd (Next P b r)) rs"

subsection \<open>What a call may give\<close>

text \<open>
  \<open>jitter_of u out\<close>: \<open>out\<close> is a duration of the closed range \<open>[0, u]\<close>, or it is
  the panic of \<^verbatim>\<open>rand.Int63n\<close>, which is only possible where \<open>u\<close> is negative or
  \<open>u + 1\<close> wraps around. \<open>bounded_by\<close> compares the outcome of a call without jitter
  with the outcome of the same call with jitter.
\<close>

definition jitter_of :: "Duration \<Rightarrow> panic + Duration \<Rightarrow> bool" where
  "jitter_of u out =
     (case out of Inr v \<Rightarrow> 0 \<le> sint v \<and> sint v \<le> sint u
      | Inl p \<Rightarrow> sint u < 0 \<or> u = MaxInt64)"

definition bounded_by :: "panic + Duration \<Rightarrow> panic + Duration \<Rightarrow> bool" where
  "bounded_by u out = (case u of Inr U \<Rightarrow> jitter_of U out | Inl p \<Rightarrow> False)"

subsection \<open>The sequence without jitter\<close>

text \<open>
  \<open>step\<close> is the growth and the clamp of the \<^verbatim>\<open>else\<close> branch of \<^verbatim>\<open>Next\<close>;
  \<open>unjittered P i f m k\<close> is the value of \<open>current\<close> after \<open>k + 1\<close> calls.
  \<open>returns_nonneg\<close> says that a call returned, and returned a duration that is not
  negative.
\<close>

definition step :: "platform \<Rightarrow> float64 \<Rightarrow> Duration \<Rightarrow> Duration \<Rightarrow> Duration" where
  "step P f m c =
     (let next = grow P c f;
          next = (if sint m < sint next then m else next)
      in next)"

fun unjittered :: "platform \<Rightarrow> Duration \<Rightarrow> float64 \<Rightarrow> Duration \<Rightarrow> nat \<Rightarrow> Duration" where
  "unjittered P i f m 0 = i"
| "unjittered P i f m (Suc n) = step P f m (unjittered P i f m n)"

definition returns_nonneg :: "panic + Duration \<Rightarrow> bool" where
  "returns_nonneg out = (case out of Inr v \<Rightarrow> 0 \<le> sint v | Inl p \<Rightarrow> False)"

section \<open>Words and draws\<close>

lemma sint_word_of_int_64:
  assumes "- (2 ^ 63) \<le> x" "x < 2 ^ 63"
  shows "sint (word_of_int x :: Duration) = x"
  using assms by (simp add: sint_sbintrunc' signed_take_bit_int_eq_self)

lemma sint_succ:
  fixes u :: Duration
  assumes "u \<noteq> MaxInt64"
  shows "sint (u + 1) = sint u + 1"
proof -
  have "sint u < 2 ^ 63" using sint_lt [of u] by simp
  moreover have "sint u \<noteq> 2 ^ 63 - 1"
  proof
    assume "sint u = 2 ^ 63 - 1"
    then have "sint u = sint MaxInt64" by (simp add: MaxInt64_def)
    then have "u = MaxInt64" by (rule word_eq_iff_signed [THEN iffD2])
    then show False using assms by simp
  qed
  ultimately have "sint u + 1 < 2 ^ 63" by simp
  moreover have "- (2 ^ 63) \<le> sint u" using sint_ge [of u] by simp
  ultimately have "sint (word_of_int (sint u + 1) :: Duration) = sint u + 1"
    by (intro sint_word_of_int_64) simp_all
  then show ?thesis by simp
qed

lemma sint_succ_Max: "sint (MaxInt64 + 1) < 0"
  by (simp add: MaxInt64_def)

lemma Int63n_jitter_of: "jitter_of u (Int63n (u + 1) r)"
proof (cases "u = MaxInt64")
  case True
  then show ?thesis using sint_succ_Max by (simp add: jitter_of_def Int63n_def)
next
  case False
  note s = sint_succ [OF False]
  show ?thesis
  proof (cases "sint u < 0")
    case True
    then show ?thesis using s by (simp add: jitter_of_def Int63n_def)
  next
    case False
    let ?x = "int r mod (sint u + 1)"
    have p: "0 < sint u + 1" using False by simp
    have x: "0 \<le> ?x" "?x < sint u + 1"
      using pos_mod_sign [OF p, of "int r"] pos_mod_bound [OF p, of "int r"] by simp_all
    have "sint u < 2 ^ 63" using sint_lt [of u] by simp
    with x have "sint (word_of_int ?x :: Duration) = ?x"
      by (intro sint_word_of_int_64) simp_all
    with x False show ?thesis using s by (simp add: jitter_of_def Int63n_def)
  qed
qed

lemma Int63n_returns:
  assumes "0 \<le> sint u" "u \<noteq> MaxInt64"
  shows "\<exists>v. Int63n (u + 1) r = Inr v \<and> 0 \<le> sint v \<and> sint v \<le> sint u"
  using Int63n_jitter_of [of u r] assms sint_succ [OF assms(2)]
  by (auto simp: jitter_of_def Int63n_def split: sum.splits)

lemma Int63n_attains:
  assumes "0 \<le> sint u" "u \<noteq> MaxInt64"
  shows "Int63n (u + 1) (nat (sint u)) = Inr u"
  using assms sint_succ [OF assms(2)] by (simp add: Int63n_def)

section \<open>Rounding to binary64\<close>

lemma pow2_powi: "pow2 e = 2 powi e"
  by (simp add: power_int_def inverse_eq_divide power_one_over)

lemma pow2_pos: "0 < pow2 e"
  by (simp add: pow2_powi del: pow2.simps)

lemma pow2_add: "pow2 (a + b) = pow2 a * pow2 b"
  by (simp add: pow2_powi power_int_add del: pow2.simps)

lemma pow2_nat: "pow2 (int n) = 2 ^ n"
  by simp

lemma pow2_mono: "a \<le> b \<Longrightarrow> pow2 a \<le> pow2 b"
  by (simp add: pow2_powi power_int_increasing del: pow2.simps)

declare pow2.simps [simp del]

lemma pow2_shift: "a \<le> b \<Longrightarrow> pow2 b = 2 ^ nat (b - a) * pow2 a"
proof -
  assume "a \<le> b"
  then have "pow2 (b - a) = 2 ^ nat (b - a)" using pow2_nat [of "nat (b - a)"] by simp
  then show ?thesis using pow2_add [of "b - a" a] by simp
qed

lemma bitlen_bounds: "0 < m \<Longrightarrow> 2 ^ (bitlen m - 1) \<le> m \<and> m < 2 ^ bitlen m"
proof (induction m rule: bitlen.induct)
  case (1 n)
  show ?case
  proof (cases "n div 2 = 0")
    case True
    with 1(2) have "n = 1" by presburger
    then show ?thesis by (simp add: bitlen.simps)
  next
    case False
    with 1 have ih: "2 ^ (bitlen (n div 2) - 1) \<le> n div 2" "n div 2 < 2 ^ bitlen (n div 2)"
      by simp_all
    have b: "bitlen n = Suc (bitlen (n div 2))" using 1(2) by (simp add: bitlen.simps [of n])
    have p: "0 < bitlen (n div 2)" using False by (simp add: bitlen.simps [of "n div 2"])
    then have "(2::nat) ^ (bitlen n - 1) = 2 * 2 ^ (bitlen (n div 2) - 1)"
      using b by (cases "bitlen (n div 2)") simp_all
    moreover have "(2::nat) ^ bitlen n = 2 * 2 ^ bitlen (n div 2)" using b by simp
    moreover have "2 * (n div 2) \<le> n" "n < 2 * (n div 2) + 2" by presburger+
    ultimately show ?thesis using ih by linarith
  qed
qed

text \<open>Comparing a magnitude with a multiple of the unit of the result.\<close>

lemma grid_le:
  assumes "e \<le> e'"
  shows "of_nat K * pow2 e' \<le> of_nat m * pow2 e \<longleftrightarrow> K * 2 ^ nat (e' - e) \<le> m"
proof -
  have "of_nat K * pow2 e' = (of_nat (K * 2 ^ nat (e' - e)) :: rat) * pow2 e"
    using pow2_shift [OF assms] by simp
  then show ?thesis using pow2_pos [of e] by (simp del: of_nat_mult of_nat_power)
qed

lemma grid_ge:
  assumes "e \<le> e'"
  shows "of_nat m * pow2 e \<le> of_nat K * pow2 e' \<longleftrightarrow> m \<le> K * 2 ^ nat (e' - e)"
proof -
  have "of_nat K * pow2 e' = (of_nat (K * 2 ^ nat (e' - e)) :: rat) * pow2 e"
    using pow2_shift [OF assms] by simp
  then show ?thesis using pow2_pos [of e] by (simp del: of_nat_mult of_nat_power)
qed

lemma significand_exact:
  assumes "exponent_of m e \<le> e"
  shows "significand_of m e = m * 2 ^ nat (e - exponent_of m e)"
    and "of_nat (significand_of m e) * pow2 (exponent_of m e) = (of_nat m :: rat) * pow2 e"
proof -
  show a: "significand_of m e = m * 2 ^ nat (e - exponent_of m e)"
    using assms by (simp add: significand_of_def Let_def)
  show "of_nat (significand_of m e) * pow2 (exponent_of m e) = (of_nat m :: rat) * pow2 e"
    using pow2_shift [OF assms] by (simp add: a)
qed

lemma significand_shift:
  assumes "e < exponent_of m e"
  defines "k \<equiv> nat (exponent_of m e - e)"
  shows "m div 2 ^ k \<le> significand_of m e"
    and "significand_of m e \<le> m div 2 ^ k + 1"
    and "m mod 2 ^ k = 0 \<Longrightarrow> significand_of m e = m div 2 ^ k"
proof -
  have "\<not> exponent_of m e \<le> e" using assms by simp
  then have s: "significand_of m e =
      (if 2 ^ (k - 1) < m mod 2 ^ k \<or> (m mod 2 ^ k = 2 ^ (k - 1) \<and> odd (m div 2 ^ k))
       then m div 2 ^ k + 1 else m div 2 ^ k)"
    by (simp add: significand_of_def Let_def k_def)
  show "m div 2 ^ k \<le> significand_of m e" by (simp add: s)
  show "significand_of m e \<le> m div 2 ^ k + 1" by (simp add: s)
  show "significand_of m e = m div 2 ^ k" if "m mod 2 ^ k = 0"
    using that by (simp add: s)
qed

lemma significand_lower:
  assumes "of_nat K * pow2 (exponent_of m e) \<le> (of_nat m :: rat) * pow2 e"
  shows "K \<le> significand_of m e"
proof (cases "exponent_of m e \<le> e")
  case True
  from assms significand_exact(2) [OF True]
  have "of_nat K * pow2 (exponent_of m e) \<le> (of_nat (significand_of m e) :: rat) * pow2 (exponent_of m e)"
    by simp
  then show ?thesis using pow2_pos [of "exponent_of m e"] by simp
next
  case False
  then have lt: "e < exponent_of m e" by simp
  let ?k = "nat (exponent_of m e - e)"
  have "K * 2 ^ ?k \<le> m" using assms grid_le [of e "exponent_of m e" K m] lt by simp
  then have "K \<le> m div 2 ^ ?k" by (simp add: less_eq_div_iff_mult_less_eq)
  then show ?thesis using significand_shift(1) [OF lt] by simp
qed

lemma significand_upper:
  assumes "(of_nat m :: rat) * pow2 e \<le> of_nat K * pow2 (exponent_of m e)"
  shows "significand_of m e \<le> K"
proof (cases "exponent_of m e \<le> e")
  case True
  from assms significand_exact(2) [OF True]
  have "(of_nat (significand_of m e) :: rat) * pow2 (exponent_of m e) \<le> of_nat K * pow2 (exponent_of m e)"
    by simp
  then show ?thesis using pow2_pos [of "exponent_of m e"] by simp
next
  case False
  then have lt: "e < exponent_of m e" by simp
  let ?k = "nat (exponent_of m e - e)"
  have le: "m \<le> K * 2 ^ ?k" using assms grid_ge [of e "exponent_of m e" m K] lt by simp
  have m: "m div 2 ^ ?k * 2 ^ ?k + m mod 2 ^ ?k = m" by (rule div_mult_mod_eq)
  show ?thesis
  proof (cases "m mod 2 ^ ?k = 0")
    case True
    then have "significand_of m e = m div 2 ^ ?k" using significand_shift(3) [OF lt] by simp
    moreover have "m div 2 ^ ?k \<le> K * 2 ^ ?k div 2 ^ ?k" using le by (rule div_le_mono)
    ultimately show ?thesis by simp
  next
    case False
    then have "0 < m mod 2 ^ ?k" by simp
    then have "m div 2 ^ ?k * 2 ^ ?k < m" using m by linarith
    from this le have "m div 2 ^ ?k * 2 ^ ?k < K * 2 ^ ?k" by (rule less_le_trans)
    then have "m div 2 ^ ?k < K" by (rule mult_less_cancel2 [THEN iffD1, THEN conjunct2])
    then show ?thesis using significand_shift(2) [OF lt] by simp
  qed
qed

lemma significand_normal:
  assumes "0 < m" "- 1074 < exponent_of m e"
  shows "2 ^ 52 \<le> significand_of m e"
    and "(2 ^ 52 :: rat) * pow2 (exponent_of m e) \<le> of_nat m * pow2 e"
proof -
  let ?b = "bitlen m"
  from bitlen_bounds [OF assms(1)] have b: "2 ^ (?b - 1) \<le> m" "m < 2 ^ ?b" by simp_all
  have b0: "0 < ?b" using assms(1) by (simp add: bitlen.simps [of m])
  have e': "exponent_of m e = e + int ?b - 53" using assms(2) by (simp add: exponent_of_def)
  show s: "2 ^ 52 \<le> significand_of m e"
  proof (cases "exponent_of m e \<le> e")
    case True
    then have le: "?b \<le> 53" using e' by simp
    have "nat (e - exponent_of m e) = 53 - ?b" using e' by simp
    then have sg: "significand_of m e = m * 2 ^ (53 - ?b)"
      using significand_exact(1) [OF True] by simp
    have "(2::nat) ^ 52 = 2 ^ (?b - 1) * 2 ^ (53 - ?b)"
      using le b0 by (simp flip: power_add)
    also have "\<dots> \<le> m * 2 ^ (53 - ?b)" by (rule mult_le_mono1) (rule b(1))
    finally show ?thesis by (simp only: sg)
  next
    case False
    then have lt: "e < exponent_of m e" by simp
    then have gt: "53 < ?b" using e' by simp
    have k: "nat (exponent_of m e - e) = ?b - 53" using e' by simp
    have "52 + (?b - 53) = ?b - 1" using gt by simp
    then have "(2::nat) ^ (?b - 1) = 2 ^ 52 * 2 ^ (?b - 53)" by (simp only: power_add [symmetric])
    with b(1) have "2 ^ 52 * 2 ^ (?b - 53) \<le> m" by simp
    then have "2 ^ 52 \<le> m div 2 ^ (?b - 53)" by (simp add: less_eq_div_iff_mult_less_eq)
    then show ?thesis using significand_shift(1) [OF lt] k by simp
  qed
  have "(2 ^ 52 :: rat) * pow2 (exponent_of m e) \<le> of_nat (significand_of m e) * pow2 (exponent_of m e)"
  proof -
    have "(of_nat (2 ^ 52) :: rat) \<le> of_nat (significand_of m e)" using s by (simp only: of_nat_le_iff)
    then show ?thesis using pow2_pos [of "exponent_of m e"] by simp
  qed
  show "(2 ^ 52 :: rat) * pow2 (exponent_of m e) \<le> of_nat m * pow2 e"
  proof (cases "exponent_of m e \<le> e")
    case True
    have "(2 ^ 52 :: rat) * pow2 (exponent_of m e) \<le> of_nat (significand_of m e) * pow2 (exponent_of m e)"
    proof -
      have "(of_nat (2 ^ 52) :: rat) \<le> of_nat (significand_of m e)" using s by (simp only: of_nat_le_iff)
      then show ?thesis using pow2_pos [of "exponent_of m e"] by simp
    qed
    then show ?thesis using significand_exact(2) [OF True] by simp
  next
    case False
    then have lt: "e < exponent_of m e" by simp
    then have gt: "53 < ?b" using e' by simp
    have k: "nat (exponent_of m e - e) = ?b - 53" using e' by simp
    have "52 + (?b - 53) = ?b - 1" using gt by simp
    then have "(2::nat) ^ (?b - 1) = 2 ^ 52 * 2 ^ (?b - 53)" by (simp only: power_add [symmetric])
    with b(1) have "2 ^ 52 * 2 ^ (?b - 53) \<le> m" by simp
    then have "of_nat (2 ^ 52) * pow2 (exponent_of m e) \<le> (of_nat m :: rat) * pow2 e"
      using grid_le [of e "exponent_of m e" "2 ^ 52" m] lt k by simp
    then show ?thesis by simp
  qed
qed

lemma pow2_double: "j < E \<Longrightarrow> 2 * pow2 j \<le> pow2 E"
proof -
  assume "j < E"
  then have "pow2 (j + 1) \<le> pow2 E" by (intro pow2_mono) simp
  moreover have "pow2 (j + 1) = pow2 j * 2" using pow2_add [of j 1] pow2_nat [of 1] by simp
  ultimately show ?thesis by simp
qed

lemma round_even_zero: "round_even s 0 e = Finite s 0 0"
  by (simp add: round_even_def)

lemma round_even_pos:
  assumes "0 < m"
  shows "round_even s m e =
    (if 971 < exponent_of m e \<or> (exponent_of m e = 971 \<and> 2 ^ 53 \<le> significand_of m e)
     then Infinity s else Finite s (significand_of m e) (exponent_of m e))"
  using assms by (simp add: round_even_def Let_def)

lemma nat_le_rat: "(a::nat) \<le> b \<Longrightarrow> (of_nat a :: rat) * pow2 e \<le> of_nat b * pow2 e"
  using pow2_pos [of e] by simp

lemma significand_value_upper:
  assumes "0 < m" "(of_nat m :: rat) * pow2 e \<le> of_nat k * pow2 j" "k \<le> 2 ^ 53" "- 1074 \<le> j"
  shows "(of_nat (significand_of m e) :: rat) * pow2 (exponent_of m e) \<le> of_nat k * pow2 j"
proof (cases "exponent_of m e \<le> j")
  case True
  let ?K = "k * 2 ^ nat (j - exponent_of m e)"
  have R: "(of_nat k :: rat) * pow2 j = of_nat ?K * pow2 (exponent_of m e)"
    using pow2_shift [OF True] by simp
  with assms(2) have "significand_of m e \<le> ?K" by (intro significand_upper) simp
  then show ?thesis using nat_le_rat [of "significand_of m e" ?K] by (simp only: R)
next
  case False
  then have lt: "j < exponent_of m e" by simp
  with assms(4) have n: "- 1074 < exponent_of m e" by simp
  note x = significand_normal(2) [OF assms(1) n]
  have "(of_nat k :: rat) * pow2 j \<le> of_nat (2 ^ 53) * pow2 j" using assms(3) by (rule nat_le_rat)
  also have "\<dots> = 2 ^ 52 * (2 * pow2 j)" by simp
  also have "\<dots> \<le> 2 ^ 52 * pow2 (exponent_of m e)" using pow2_double [OF lt] by simp
  finally have kR: "(of_nat k :: rat) * pow2 j \<le> 2 ^ 52 * pow2 (exponent_of m e)" .
  with assms(2) have "(of_nat m :: rat) * pow2 e \<le> of_nat (2 ^ 52) * pow2 (exponent_of m e)" by simp
  then have "significand_of m e \<le> 2 ^ 52" by (rule significand_upper)
  then have "(of_nat (significand_of m e) :: rat) * pow2 (exponent_of m e)
      \<le> of_nat (2 ^ 52) * pow2 (exponent_of m e)" by (rule nat_le_rat)
  also have "\<dots> \<le> of_nat m * pow2 e" using x by simp
  finally show ?thesis using assms(2) by simp
qed

lemma significand_value_lower:
  assumes "0 < m" "(of_nat k :: rat) * pow2 j \<le> of_nat m * pow2 e" "k \<le> 2 ^ 53" "- 1074 \<le> j"
  shows "(of_nat k :: rat) * pow2 j \<le> of_nat (significand_of m e) * pow2 (exponent_of m e)"
proof (cases "exponent_of m e \<le> j")
  case True
  let ?K = "k * 2 ^ nat (j - exponent_of m e)"
  have R: "(of_nat k :: rat) * pow2 j = of_nat ?K * pow2 (exponent_of m e)"
    using pow2_shift [OF True] by simp
  with assms(2) have "?K \<le> significand_of m e" by (intro significand_lower) simp
  then show ?thesis using nat_le_rat [of ?K "significand_of m e"] by (simp only: R)
next
  case False
  then have lt: "j < exponent_of m e" by simp
  with assms(4) have n: "- 1074 < exponent_of m e" by simp
  have "(of_nat k :: rat) * pow2 j \<le> of_nat (2 ^ 53) * pow2 j" using assms(3) by (rule nat_le_rat)
  also have "\<dots> = 2 ^ 52 * (2 * pow2 j)" by simp
  also have "\<dots> \<le> of_nat (2 ^ 52) * pow2 (exponent_of m e)" using pow2_double [OF lt] by simp
  also have "\<dots> \<le> of_nat (significand_of m e) * pow2 (exponent_of m e)"
    using significand_normal(1) [OF assms(1) n] by (rule nat_le_rat)
  finally show ?thesis .
qed

lemma round_even_upper:
  assumes "(of_nat m :: rat) * pow2 e \<le> of_nat k * pow2 j" "k \<le> 2 ^ 53" "- 1074 \<le> j" "j \<le> 970"
  shows "\<exists>m' e'. round_even s m e = Finite s m' e' \<and>
           (of_nat m' :: rat) * pow2 e' \<le> of_nat k * pow2 j"
proof (cases "m = 0")
  case True
  then show ?thesis using pow2_pos [of j] by (simp add: round_even_zero)
next
  case False
  then have m: "0 < m" by simp
  let ?E = "exponent_of m e" and ?M = "significand_of m e"
  note v = significand_value_upper [OF m assms(1,2,3)]
  have top: "(of_nat k :: rat) * pow2 j \<le> 2 ^ 53 * pow2 970"
  proof -
    have "(of_nat k :: rat) * pow2 j \<le> of_nat (2 ^ 53) * pow2 j" using assms(2) by (rule nat_le_rat)
    also have "\<dots> \<le> of_nat (2 ^ 53) * pow2 970" using pow2_mono [OF assms(4)] by simp
    finally show ?thesis by simp
  qed
  have a: "\<not> 971 < ?E"
  proof
    assume g: "971 < ?E"
    then have n: "- 1074 < ?E" by simp
    have "2 * (2 * pow2 970) \<le> 2 * pow2 971" using pow2_double [of 970 971] by simp
    also have "\<dots> \<le> pow2 ?E" using g by (intro pow2_double)
    finally have "(2 ^ 52 :: rat) * (4 * pow2 970) \<le> 2 ^ 52 * pow2 ?E" by simp
    also have "\<dots> \<le> of_nat m * pow2 e" by (rule significand_normal(2) [OF m n])
    also have "\<dots> \<le> 2 ^ 53 * pow2 970" using assms(1) top by simp
    finally show False using pow2_pos [of 970] by simp
  qed
  have b: "\<not> (?E = 971 \<and> 2 ^ 53 \<le> ?M)"
  proof
    assume g: "?E = 971 \<and> 2 ^ 53 \<le> ?M"
    then have "(of_nat (2 ^ 53) :: rat) * pow2 971 \<le> of_nat ?M * pow2 ?E"
      using nat_le_rat [of "2 ^ 53" ?M 971] by simp
    also have "\<dots> \<le> 2 ^ 53 * pow2 970" using v top by simp
    finally have "pow2 971 \<le> pow2 970" by simp
    then show False using pow2_double [of 970 971] pow2_pos [of 970] by simp
  qed
  from a b have "round_even s m e = Finite s ?M ?E" by (simp add: round_even_pos [OF m])
  with v show ?thesis by blast
qed

lemma round_even_lower:
  assumes "(of_nat k :: rat) * pow2 j \<le> of_nat m * pow2 e" "k \<le> 2 ^ 53" "- 1074 \<le> j"
    "round_even s m e = Finite s' m' e'"
  shows "(of_nat k :: rat) * pow2 j \<le> of_nat m' * pow2 e'"
proof (cases "m = 0")
  case True
  with assms(4) have "m' = 0" by (simp add: round_even_zero)
  then show ?thesis using assms(1) True by simp
next
  case False
  then have m: "0 < m" by simp
  from assms(4) have "m' = significand_of m e" "e' = exponent_of m e"
    by (simp_all add: round_even_pos [OF m] split: if_splits)
  then show ?thesis using significand_value_lower [OF m assms(1,2,3)] by simp
qed

lemma round_even_sign: "round_even s m e = Finite s' m' e' \<Longrightarrow> s' = s"
  by (simp add: round_even_def Let_def split: if_splits)

lemma pow2_0: "pow2 0 = 1"
  using pow2_nat [of 0] by simp

lemma of_int64_exact:
  assumes "0 \<le> sint c" "sint c \<le> 2 ^ 53"
  shows "\<exists>m e. of_int64 c = Finite False m e \<and> (of_nat m :: rat) * pow2 e = of_int (sint c)"
proof -
  let ?k = "nat (sint c)"
  have k: "?k \<le> 2 ^ 53" using assms by (simp add: nat_le_iff)
  have o: "of_int64 c = round_even False ?k 0" using assms(1) by (simp add: of_int64_def)
  from round_even_upper [of ?k 0 ?k 0 False, OF _ k]
  obtain m e where r: "round_even False ?k 0 = Finite False m e"
    and u: "(of_nat m :: rat) * pow2 e \<le> of_nat ?k * pow2 0" by auto
  from round_even_lower [of ?k 0 ?k 0 False False m e, OF _ k _ r]
  have l: "(of_nat ?k :: rat) * pow2 0 \<le> of_nat m * pow2 e" by simp
  have "(of_nat ?k :: rat) = of_int (sint c)" using assms(1) by simp
  with u l have "(of_nat m :: rat) * pow2 e = of_int (sint c)" by (simp add: pow2_0)
  with o r show ?thesis by simp
qed

lemma trunc_int_floor: "trunc_int False m e = \<lfloor>(of_nat m :: rat) * pow2 e\<rfloor>"
proof (cases "0 \<le> e")
  case True
  then have "(of_nat m :: rat) * pow2 e = of_int (int (m * 2 ^ nat e))"
    by (simp add: pow2.simps)
  then have "\<lfloor>(of_nat m :: rat) * pow2 e\<rfloor> = int (m * 2 ^ nat e)"
    by (simp only: floor_of_int)
  then show ?thesis using True by (simp add: trunc_int_def)
next
  case False
  then have "(of_nat m :: rat) * pow2 e = of_nat m / of_nat (2 ^ nat (- e))"
    by (simp add: pow2.simps)
  then have "\<lfloor>(of_nat m :: rat) * pow2 e\<rfloor> = int (m div 2 ^ nat (- e))"
    by (simp only: floor_divide_of_nat_eq)
  then show ?thesis using False by (simp add: trunc_int_def)
qed

lemma to_int64_floor:
  assumes "(of_nat m :: rat) * pow2 e \<le> 2 ^ 63 - 1024"
  shows "sint (to_int64 P (Finite False m e)) = \<lfloor>(of_nat m :: rat) * pow2 e\<rfloor>"
proof -
  let ?v = "(of_nat m :: rat) * pow2 e"
  have "0 \<le> ?v" using pow2_pos [of e] by simp
  then have lo: "0 \<le> \<lfloor>?v\<rfloor>" by simp
  have "\<lfloor>?v\<rfloor> \<le> \<lfloor>2 ^ 63 - 1024 :: rat\<rfloor>" using assms by (rule floor_mono)
  moreover have "\<lfloor>2 ^ 63 - 1024 :: rat\<rfloor> = 2 ^ 63 - 1024"
  proof -
    have "(2 ^ 63 - 1024 :: rat) = of_int (2 ^ 63 - 1024)" by simp
    then show ?thesis by (simp only: floor_of_int)
  qed
  ultimately have hi: "\<lfloor>?v\<rfloor> < 2 ^ 63" by simp
  show ?thesis using lo hi sint_word_of_int_64 [of "\<lfloor>?v\<rfloor>"]
    by (simp add: trunc_int_floor Let_def)
qed

lemma to_int64_neg_zero: "to_int64 P (Finite s 0 e) = 0"
  by (simp add: trunc_int_def Let_def)

lemma grow_zero:
  assumes "is_finite (decode f)"
  shows "grow P 0 f = 0"
proof -
  have o: "of_int64 0 = Finite False 0 0" by (simp add: of_int64_def round_even_zero)
  from assms obtain t n d where "decode f = Finite t n d" by (cases "decode f") simp_all
  then show ?thesis
    by (simp add: grow_def o round_even_zero to_int64_neg_zero del: to_int64.simps)
qed

text \<open>
  The growth step between exactly representable bounds: for \<open>0 \<le> c \<le> 2\<^sup>5\<^sup>3\<close> and a
  finite factor \<open>F \<ge> 0\<close> with \<open>c * F \<le> 2\<^sup>6\<^sup>3 - 1024\<close> the conversion is in range on
  every platform, and the result lies between any two integers of \<open>[0, 2\<^sup>5\<^sup>3]\<close> that
  enclose the exact product.
\<close>

lemma grow_between:
  assumes c: "0 \<le> sint c" "sint c \<le> 2 ^ 53"
    and f: "is_finite (decode f)" "0 \<le> valof (decode f)"
    and r: "of_int (sint c) * valof (decode f) \<le> 2 ^ 63 - 1024"
  shows "0 \<le> sint (grow P c f)"
    and "0 \<le> a \<Longrightarrow> a \<le> 2 ^ 53 \<Longrightarrow> of_int a \<le> of_int (sint c) * valof (decode f)
          \<Longrightarrow> a \<le> sint (grow P c f)"
    and "0 \<le> b \<Longrightarrow> b \<le> 2 ^ 53 \<Longrightarrow> of_int (sint c) * valof (decode f) \<le> of_int b
          \<Longrightarrow> sint (grow P c f) \<le> b"
    and "sint (grow P c f) \<le> 2 ^ 63 - 1024"
proof -
  from f(1) obtain t n d where d: "decode f = Finite t n d" by (cases "decode f") simp_all
  from of_int64_exact [OF c] obtain m1 e1 where o: "of_int64 c = Finite False m1 e1"
    and ov: "(of_nat m1 :: rat) * pow2 e1 = of_int (sint c)" by auto
  have g: "grow P c f = to_int64 P (round_even t (m1 * n) (e1 + d))"
    by (simp add: grow_def o d)
  let ?x = "of_int (sint c) * valof (decode f)"
  have z: "sint (grow P c f) = 0" if "n = 0"
    using that by (simp add: g d round_even_zero to_int64_neg_zero del: to_int64.simps)
  have zx: "?x = 0" if "n = 0"
    using that by (simp add: d)
  have pos: "\<exists>M E. sint (grow P c f) = \<lfloor>(of_nat M :: rat) * pow2 E\<rfloor> \<and>
      round_even False (m1 * n) (e1 + d) = Finite False M E \<and>
      (of_nat M :: rat) * pow2 E \<le> 2 ^ 63 - 1024 \<and>
      ?x = of_nat (m1 * n) * pow2 (e1 + d) \<and> \<not> t" if "n \<noteq> 0"
  proof -
    have nt: "\<not> t"
    proof
      assume t
      then have "valof (decode f) = - (of_nat n * pow2 d)" by (simp add: d)
      moreover have "0 < (of_nat n :: rat) * pow2 d" using that pow2_pos [of d] by simp
      ultimately show False using f(2) by simp
    qed
    then have F: "valof (decode f) = of_nat n * pow2 d" by (simp add: d)
    have x: "?x = of_nat (m1 * n) * pow2 (e1 + d)"
      using ov by (simp add: F pow2_add)
    have "(2 ^ 63 - 1024 :: rat) = of_nat (2 ^ 53 - 1) * pow2 10"
      using pow2_nat [of 10] by simp
    with r x have "(of_nat (m1 * n) :: rat) * pow2 (e1 + d) \<le> of_nat (2 ^ 53 - 1) * pow2 10"
      by simp
    from round_even_upper [OF this, of False]
    obtain M E where R: "round_even False (m1 * n) (e1 + d) = Finite False M E"
      and u: "(of_nat M :: rat) * pow2 E \<le> of_nat (2 ^ 53 - 1) * pow2 10" by auto
    have u': "(of_nat M :: rat) * pow2 E \<le> 2 ^ 63 - 1024"
      using u pow2_nat [of 10] by simp
    have "sint (grow P c f) = \<lfloor>(of_nat M :: rat) * pow2 E\<rfloor>"
      using to_int64_floor [OF u', of P] nt by (simp add: g R)
    with R u' x nt show ?thesis by blast
  qed
  show "0 \<le> sint (grow P c f)"
  proof (cases "n = 0")
    case True
    then show ?thesis using z by simp
  next
    case False
    from pos [OF False] obtain M E where "sint (grow P c f) = \<lfloor>(of_nat M :: rat) * pow2 E\<rfloor>"
      by blast
    moreover have "0 \<le> (of_nat M :: rat) * pow2 E" using pow2_pos [of E] by simp
    ultimately show ?thesis by simp
  qed
  show "sint (grow P c f) \<le> 2 ^ 63 - 1024"
  proof (cases "n = 0")
    case True
    then show ?thesis using z by simp
  next
    case False
    from pos [OF False] obtain M E where s: "sint (grow P c f) = \<lfloor>(of_nat M :: rat) * pow2 E\<rfloor>"
      and u: "(of_nat M :: rat) * pow2 E \<le> 2 ^ 63 - 1024" by blast
    have "(of_nat M :: rat) * pow2 E \<le> of_int (2 ^ 63 - 1024)" using u by simp
    then have "\<lfloor>(of_nat M :: rat) * pow2 E\<rfloor> \<le> 2 ^ 63 - 1024" by (simp add: floor_le_iff)
    then show ?thesis using s by simp
  qed
  show "a \<le> sint (grow P c f)" if a: "0 \<le> a" "a \<le> 2 ^ 53" "of_int a \<le> ?x"
  proof (cases "n = 0")
    case True
    have "(of_int a :: rat) \<le> 0" using a(3) unfolding zx [OF True] .
    then have "a \<le> 0" by simp
    then show ?thesis using z [OF True] by simp
  next
    case False
    from pos [OF False] obtain M E where s: "sint (grow P c f) = \<lfloor>(of_nat M :: rat) * pow2 E\<rfloor>"
      and R: "round_even False (m1 * n) (e1 + d) = Finite False M E"
      and x: "?x = of_nat (m1 * n) * pow2 (e1 + d)" by blast
    have k: "nat a \<le> 2 ^ 53" using a by (simp add: nat_le_iff)
    have "(of_nat (nat a) :: rat) * pow2 0 \<le> of_nat (m1 * n) * pow2 (e1 + d)"
      using a x by (simp add: pow2_0)
    from round_even_lower [OF this k _ R]
    have "(of_int a :: rat) \<le> of_nat M * pow2 E" using a by (simp add: pow2_0)
    then show ?thesis by (simp add: s le_floor_iff)
  qed
  show "sint (grow P c f) \<le> b" if b: "0 \<le> b" "b \<le> 2 ^ 53" "?x \<le> of_int b"
  proof (cases "n = 0")
    case True
    then show ?thesis using z [OF True] b(1) by simp
  next
    case False
    from pos [OF False] obtain M E where s: "sint (grow P c f) = \<lfloor>(of_nat M :: rat) * pow2 E\<rfloor>"
      and R: "round_even False (m1 * n) (e1 + d) = Finite False M E"
      and x: "?x = of_nat (m1 * n) * pow2 (e1 + d)" by blast
    have k: "nat b \<le> 2 ^ 53" using b by (simp add: nat_le_iff)
    have "(of_nat (m1 * n) :: rat) * pow2 (e1 + d) \<le> of_nat (nat b) * pow2 0"
      using b x by (simp add: pow2_0)
    from round_even_upper [OF this k, of False] R
    have "(of_nat M :: rat) * pow2 E \<le> of_int b" using b by (auto simp: pow2_0)
    then have "\<lfloor>(of_nat M :: rat) * pow2 E\<rfloor> \<le> b" by (simp add: floor_le_iff)
    then show ?thesis by (simp add: s)
  qed
qed

section \<open>One call\<close>

lemma Next_first:
  assumes "\<not> initialized b"
  shows "Next P b r =
    (if withJitter b then Int63n (initial b + 1) r else Inr (initial b),
     b\<lparr>current := initial b, initialized := True\<rparr>)"
  using assms by (simp add: Next_def)

lemma New_WithJitter:
  "New i f m [WithJitter j] =
     \<lparr>initial = i, factor = f, max_d = m, withJitter = j, current = 0, initialized = False\<rparr>"
  by (simp add: New_def WithJitter_def)

lemma New_default:
  "New i f m [] =
     \<lparr>initial = i, factor = f, max_d = m, withJitter = True, current = 0, initialized = False\<rparr>"
  by (simp add: New_def)

lemma Next_params:
  "initial (snd (Next P b r)) = initial b \<and> factor (snd (Next P b r)) = factor b \<and>
   max_d (snd (Next P b r)) = max_d b \<and> withJitter (snd (Next P b r)) = withJitter b"
  by (simp add: Next_def Let_def)

lemma run_params:
  "initial (snd (run P b cs)) = initial b \<and> factor (snd (run P b cs)) = factor b \<and>
   max_d (snd (run P b cs)) = max_d b \<and> withJitter (snd (run P b cs)) = withJitter b"
proof (induction cs arbitrary: b)
  case Nil
  show ?case by simp
next
  case (Cons c cs)
  show ?case
  proof (cases c)
    case (CallNext r)
    then show ?thesis using Cons [of "snd (Next P b r)"] Next_params [of P b r] by simp
  next
    case CallReset
    then show ?thesis using Cons [of "Reset b"] by (simp add: Reset_def)
  qed
qed

lemma Next_Reset:
  "Next P (Reset b) r =
     Next P (New (initial b) (factor b) (max_d b) [WithJitter (withJitter b)]) r"
  by (simp add: Next_first Reset_def New_WithJitter)

lemma Next_out:
  "fst (Next P b r) =
     (if withJitter b then Int63n (current (snd (Next P b r)) + 1) r
      else Inr (current (snd (Next P b r))))"
  by (simp add: Next_def Let_def)

lemma Next_withJitter:
  "snd (Next P (b\<lparr>withJitter := j\<rparr>) r) = (snd (Next P b r))\<lparr>withJitter := j\<rparr>"
  by (simp add: Next_def Let_def)

lemma Reset_withJitter: "Reset (b\<lparr>withJitter := j\<rparr>) = (Reset b)\<lparr>withJitter := j\<rparr>"
  by (simp add: Reset_def)

lemma run_bounded_by:
  "list_all2 bounded_by (fst (run P (b\<lparr>withJitter := False\<rparr>) cs))
     (fst (run P (b\<lparr>withJitter := True\<rparr>) cs))"
proof (induction cs arbitrary: b)
  case Nil
  show ?case by simp
next
  case (Cons c cs)
  show ?case
  proof (cases c)
    case (CallNext r)
    let ?b' = "snd (Next P b r)"
    have "bounded_by (fst (Next P (b\<lparr>withJitter := False\<rparr>) r))
            (fst (Next P (b\<lparr>withJitter := True\<rparr>) r))"
      using Int63n_jitter_of [of "current ?b'" r]
      by (simp add: Next_out [of P "b\<lparr>withJitter := False\<rparr>"]
          Next_out [of P "b\<lparr>withJitter := True\<rparr>"] Next_withJitter bounded_by_def)
    then show ?thesis using Cons [of ?b'] CallNext by (simp add: Next_withJitter)
  next
    case CallReset
    then show ?thesis using Cons [of "Reset b"] by (simp add: Reset_withJitter)
  qed
qed

section \<open>The growth step\<close>

lemma Next_started:
  assumes "initialized b"
  shows "snd (Next P b r) = b\<lparr>current := step P (factor b) (max_d b) (current b)\<rparr>"
  using assms by (simp add: Next_def step_def Let_def)

lemma Next_unstarted:
  assumes "\<not> initialized b"
  shows "snd (Next P b r) = b\<lparr>current := initial b, initialized := True\<rparr>"
  using assms by (simp add: Next_def Let_def)

lemma unjittered_shift: "unjittered P (step P f m c) f m k = unjittered P c f m (Suc k)"
  by (induction k) simp_all

lemma nexts_started:
  assumes "initialized b" "\<not> withJitter b"
  shows "nexts P b rs =
    map (\<lambda>k. Inr (unjittered P (current b) (factor b) (max_d b) (Suc k))) [0..<length rs]"
  using assms
proof (induction rs arbitrary: b)
  case Nil
  show ?case by simp
next
  case (Cons r rs)
  let ?b' = "snd (Next P b r)"
  have b': "?b' = b\<lparr>current := step P (factor b) (max_d b) (current b)\<rparr>"
    using Cons.prems(1) by (rule Next_started)
  have o: "fst (Next P b r) = Inr (step P (factor b) (max_d b) (current b))"
    using Cons.prems(2) by (simp add: Next_out b')
  have "nexts P ?b' rs =
      map (\<lambda>k. Inr (unjittered P (current ?b') (factor ?b') (max_d ?b') (Suc k))) [0..<length rs]"
    using Cons.prems by (intro Cons.IH) (simp_all add: b')
  then have t: "nexts P ?b' rs =
      map (\<lambda>k. Inr (unjittered P (current b) (factor b) (max_d b) (Suc (Suc k)))) [0..<length rs]"
    by (simp add: b' unjittered_shift)
  show ?case
    by (simp add: o t map_upt_Suc del: upt_Suc unjittered.simps(2))
       (simp add: unjittered.simps(2) [of _ _ _ _ 0])
qed

lemma nexts_unjittered:
  "nexts P (New i f m [WithJitter False]) rs = map (\<lambda>k. Inr (unjittered P i f m k)) [0..<length rs]"
proof (cases rs)
  case Nil
  then show ?thesis by simp
next
  case (Cons r rs')
  let ?n = "New i f m [WithJitter False]"
  have n: "?n = \<lparr>initial = i, factor = f, max_d = m, withJitter = False, current = 0,
      initialized = False\<rparr>" by (simp add: New_def WithJitter_def)
  have b': "snd (Next P ?n r) = ?n\<lparr>current := i, initialized := True\<rparr>"
    using Next_unstarted [of ?n P r] by (simp add: n)
  have o: "fst (Next P ?n r) = Inr i" by (simp add: Next_out b') (simp add: n)
  have "nexts P (snd (Next P ?n r)) rs' =
      map (\<lambda>k. Inr (unjittered P i f m (Suc k))) [0..<length rs']"
    using nexts_started [of "snd (Next P ?n r)" P rs'] by (simp add: b') (simp add: n)
  then show ?thesis using Cons o by (simp add: map_upt_Suc del: upt_Suc unjittered.simps(2))
qed

lemma grow_nonneg:
  assumes c: "0 \<le> sint c" "sint c \<le> int (k * 2 ^ j)"
    and k: "k \<le> 2 ^ 53" "j \<le> 10"
    and f: "is_finite (decode f)" "0 \<le> valof (decode f)"
    and r: "of_nat (k * 2 ^ j) * valof (decode f) \<le> 2 ^ 63 - 1024"
  shows "0 \<le> sint (grow P c f)"
proof -
  from f(1) obtain t n d where d: "decode f = Finite t n d" by (cases "decode f") simp_all
  have "nat (sint c) \<le> k * 2 ^ j" using c by (simp add: nat_le_iff)
  then have "(of_nat (nat (sint c)) :: rat) \<le> of_nat (k * 2 ^ j)" by (simp only: of_nat_le_iff)
  then have "(of_nat (nat (sint c)) :: rat) * pow2 0 \<le> of_nat k * pow2 (int j)"
    by (simp add: pow2_0 pow2_nat)
  from round_even_upper [OF this k(1), of False]
  obtain m1 e1 where o: "round_even False (nat (sint c)) 0 = Finite False m1 e1"
    and ov: "(of_nat m1 :: rat) * pow2 e1 \<le> of_nat k * pow2 (int j)" using k(2) by auto
  have oc: "of_int64 c = Finite False m1 e1" using c(1) o by (simp add: of_int64_def)
  have g: "grow P c f = to_int64 P (round_even t (m1 * n) (e1 + d))"
    by (simp add: grow_def oc d)
  show ?thesis
  proof (cases "n = 0")
    case True
    then show ?thesis by (simp add: g round_even_zero to_int64_neg_zero del: to_int64.simps)
  next
    case False
    have nt: "\<not> t"
    proof
      assume t
      then have "valof (decode f) = - (of_nat n * pow2 d)" by (simp add: d)
      moreover have "0 < (of_nat n :: rat) * pow2 d" using False pow2_pos [of d] by simp
      ultimately show False using f(2) by simp
    qed
    then have F: "valof (decode f) = of_nat n * pow2 d" by (simp add: d)
    have "(of_nat (m1 * n) :: rat) * pow2 (e1 + d) = (of_nat m1 * pow2 e1) * valof (decode f)"
      by (simp add: F pow2_add)
    also have "\<dots> \<le> (of_nat k * pow2 (int j)) * valof (decode f)"
      using ov f(2) by (rule mult_right_mono)
    also have "\<dots> = of_nat (k * 2 ^ j) * valof (decode f)" by (simp add: pow2_nat)
    also have "\<dots> \<le> 2 ^ 63 - 1024" by (rule r)
    also have "(2 ^ 63 - 1024 :: rat) = of_nat (2 ^ 53 - 1) * pow2 10"
      using pow2_nat [of 10] by simp
    finally have "(of_nat (m1 * n) :: rat) * pow2 (e1 + d) \<le> of_nat (2 ^ 53 - 1) * pow2 10" .
    from round_even_upper [OF this, of False]
    obtain M E where R: "round_even False (m1 * n) (e1 + d) = Finite False M E"
      and u: "(of_nat M :: rat) * pow2 E \<le> of_nat (2 ^ 53 - 1) * pow2 10" by auto
    have u': "(of_nat M :: rat) * pow2 E \<le> 2 ^ 63 - 1024"
      using u pow2_nat [of 10] by simp
    have "sint (grow P c f) = \<lfloor>(of_nat M :: rat) * pow2 E\<rfloor>"
      using to_int64_floor [OF u', of P] nt by (simp add: g R)
    moreover have "0 \<le> (of_nat M :: rat) * pow2 E" using pow2_pos [of E] by simp
    ultimately show ?thesis by simp
  qed
qed

lemma step_nonneg:
  assumes "0 \<le> sint m" "0 \<le> sint c" "sint c \<le> int (k * 2 ^ j)" "k \<le> 2 ^ 53" "j \<le> 10"
    "is_finite (decode f)" "0 \<le> valof (decode f)"
    "of_nat (k * 2 ^ j) * valof (decode f) \<le> 2 ^ 63 - 1024"
  shows "0 \<le> sint (step P f m c)" and "sint (step P f m c) \<le> sint m"
proof -
  have "0 \<le> sint (grow P c f)" using assms(2-8) by (rule grow_nonneg)
  then show "0 \<le> sint (step P f m c)" using assms(1) by (simp add: step_def Let_def)
  show "sint (step P f m c) \<le> sint m" by (simp add: step_def Let_def)
qed

lemma step_growth:
  assumes m: "sint m \<le> 2 ^ 53"
    and f: "is_finite (decode f)" "1 \<le> valof (decode f)"
    and r: "of_int (sint m) * valof (decode f) \<le> 2 ^ 63 - 1024"
    and c: "0 \<le> sint c" "sint c \<le> sint m"
  shows "sint c \<le> sint (step P f m c)"
    and "sint (step P f m c) \<le> sint m"
    and "of_int (sint m) \<le> of_int (sint c) * valof (decode f) \<Longrightarrow> step P f m c = m"
    and "of_int (sint c) * valof (decode f) < of_int (sint m) \<Longrightarrow>
           step P f m c = grow P c f \<and>
           \<lfloor>of_int (sint c) * valof (decode f)\<rfloor> \<le> sint (step P f m c) \<and>
           sint (step P f m c) \<le> \<lceil>of_int (sint c) * valof (decode f)\<rceil>"
proof -
  let ?F = "valof (decode f)" and ?x = "of_int (sint c) * valof (decode f)"
  have F0: "0 \<le> ?F" using f(2) by simp
  have c53: "sint c \<le> 2 ^ 53" using c(2) m by simp
  have m0: "0 \<le> sint m" using c by simp
  have "(of_int (sint c) :: rat) \<le> of_int (sint m)" using c(2) by (simp only: of_int_le_iff)
  then have "?x \<le> of_int (sint m) * ?F" using F0 by (rule mult_right_mono)
  with r have x: "?x \<le> 2 ^ 63 - 1024" by simp
  note gb = grow_between [where P = P, OF c(1) c53 f(1) F0 x]
  have c0: "(0::rat) \<le> of_int (sint c)" using c(1) by (simp only: of_int_0_le_iff)
  have "(of_int (sint c) :: rat) * 1 \<le> ?x" using f(2) c0 by (rule mult_left_mono)
  then have "sint c \<le> sint (grow P c f)" using c(1) c53 by (intro gb(2)) simp_all
  then show "sint c \<le> sint (step P f m c)" using c(2) by (simp add: step_def Let_def)
  show "sint (step P f m c) \<le> sint m" by (simp add: step_def Let_def)
  show "step P f m c = m" if "of_int (sint m) \<le> ?x"
  proof -
    have "sint m \<le> sint (grow P c f)" using m0 m that by (rule gb(2))
    then have "sint m < sint (grow P c f) \<or> sint (grow P c f) = sint m" by linarith
    then show ?thesis
    proof
      assume "sint m < sint (grow P c f)"
      then show ?thesis by (simp add: step_def Let_def)
    next
      assume "sint (grow P c f) = sint m"
      then have "grow P c f = m" by (rule word_eq_iff_signed [THEN iffD2])
      then show ?thesis by (simp add: step_def Let_def)
    qed
  qed
  show "step P f m c = grow P c f \<and> \<lfloor>?x\<rfloor> \<le> sint (step P f m c) \<and> sint (step P f m c) \<le> \<lceil>?x\<rceil>"
    if lt: "?x < of_int (sint m)"
  proof -
    have x0: "0 \<le> ?x" using c0 F0 by (rule mult_nonneg_nonneg)
    have cl: "\<lceil>?x\<rceil> \<le> sint m" using lt by (simp add: ceiling_le_iff)
    have fl: "\<lfloor>?x\<rfloor> \<le> \<lceil>?x\<rceil>" by (rule floor_le_ceiling)
    have f0: "0 \<le> \<lfloor>?x\<rfloor>" using x0 by simp
    have c0': "0 \<le> \<lceil>?x\<rceil>" using f0 fl by linarith
    have c53': "\<lceil>?x\<rceil> \<le> 2 ^ 53" using cl m by linarith
    have f53: "\<lfloor>?x\<rfloor> \<le> 2 ^ 53" using fl c53' by linarith
    have up: "sint (grow P c f) \<le> \<lceil>?x\<rceil>"
      using c0' c53' le_of_int_ceiling [of ?x] by (rule gb(3))
    have lo: "\<lfloor>?x\<rfloor> \<le> sint (grow P c f)"
      using f0 f53 of_int_floor_le [of ?x] by (rule gb(2))
    have "\<not> sint m < sint (grow P c f)" using up cl by simp
    then have "step P f m c = grow P c f" by (simp add: step_def Let_def)
    with up lo show ?thesis by simp
  qed
qed

lemma unjittered_range:
  assumes "0 \<le> sint i" "sint i \<le> sint m" "sint m \<le> 2 ^ 53"
    "is_finite (decode f)" "1 \<le> valof (decode f)"
    "of_int (sint m) * valof (decode f) \<le> 2 ^ 63 - 1024"
  shows "0 \<le> sint (unjittered P i f m k) \<and> sint (unjittered P i f m k) \<le> sint m"
proof (induction k)
  case 0
  show ?case using assms(1,2) by simp
next
  case (Suc k)
  from Suc have c: "0 \<le> sint (unjittered P i f m k)" "sint (unjittered P i f m k) \<le> sint m"
    by simp_all
  from step_growth(1,2) [where P = P, OF assms(3-6) c] c(1) show ?case by simp
qed

lemma unjittered_pinned:
  assumes "0 \<le> sint m" "sint m \<le> 2 ^ 53"
    "is_finite (decode f)" "1 \<le> valof (decode f)"
    "of_int (sint m) * valof (decode f) \<le> 2 ^ 63 - 1024"
    "unjittered P i f m k = m"
  shows "unjittered P i f m (k + n) = m"
proof (induction n)
  case 0
  show ?case using assms(6) by simp
next
  case (Suc n)
  have m0: "(0::rat) \<le> of_int (sint m)" using assms(1) by (simp only: of_int_0_le_iff)
  have "(of_int (sint m) :: rat) * 1 \<le> of_int (sint m) * valof (decode f)"
    using assms(4) m0 by (rule mult_left_mono)
  then have "(of_int (sint m) :: rat) \<le> of_int (sint m) * valof (decode f)" by simp
  then have "step P f m m = m"
    by (rule step_growth(3) [where P = P, OF assms(2-5) assms(1) order_refl])
  then show ?case using Suc by simp
qed

lemma sint_MaxInt64: "sint u \<le> 2 ^ 63 - 1 \<and> (sint u = 2 ^ 63 - 1 \<longleftrightarrow> u = MaxInt64)"
proof -
  have lt: "sint u < 2 ^ 63" using sint_lt [of u] by simp
  have mx: "sint MaxInt64 = 2 ^ 63 - 1" by (simp add: MaxInt64_def)
  have "u = MaxInt64" if "sint u = 2 ^ 63 - 1"
  proof -
    from that mx have "sint u = sint MaxInt64" by simp
    then show ?thesis by (rule word_eq_iff_signed [THEN iffD2])
  qed
  then show ?thesis using lt mx by auto
qed

lemma Next_keeps_nonneg:
  assumes i: "0 \<le> sint (initial b)" "sint (initial b) \<le> int (k * 2 ^ j)" "initial b \<noteq> MaxInt64"
    and m: "0 \<le> sint (max_d b)" "sint (max_d b) \<le> int (k * 2 ^ j)" "max_d b \<noteq> MaxInt64"
    and k: "k \<le> 2 ^ 53" "j \<le> 10"
    and f: "is_finite (decode (factor b))" "0 \<le> valof (decode (factor b))"
    and r: "of_nat (k * 2 ^ j) * valof (decode (factor b)) \<le> 2 ^ 63 - 1024"
    and c: "\<not> initialized b \<or>
            (0 \<le> sint (current b) \<and> sint (current b) \<le> max (sint (initial b)) (sint (max_d b)))"
  shows "returns_nonneg (fst (Next P b r'))"
    and "0 \<le> sint (current (snd (Next P b r')))"
    and "sint (current (snd (Next P b r'))) \<le> max (sint (initial b)) (sint (max_d b))"
    and "initialized (snd (Next P b r'))"
proof -
  let ?b' = "snd (Next P b r')"
  let ?C = "max (sint (initial b)) (sint (max_d b))"
  have CB: "?C \<le> int (k * 2 ^ j)" using i(2) m(2) by simp
  have rng: "0 \<le> sint (current ?b') \<and> sint (current ?b') \<le> ?C \<and> initialized ?b'"
  proof (cases "initialized b")
    case False
    then show ?thesis using i(1) by (simp add: Next_unstarted)
  next
    case True
    with c have cb: "0 \<le> sint (current b)" "sint (current b) \<le> ?C" by simp_all
    from cb(2) CB have cB: "sint (current b) \<le> int (k * 2 ^ j)" by linarith
    from step_nonneg [OF m(1) cb(1) cB k f r, of P]
    show ?thesis using True by (simp add: Next_started)
  qed
  then show "0 \<le> sint (current ?b')" "sint (current ?b') \<le> ?C" "initialized ?b'" by simp_all
  have "sint (initial b) < 2 ^ 63 - 1" "sint (max_d b) < 2 ^ 63 - 1"
    using sint_MaxInt64 [of "initial b"] sint_MaxInt64 [of "max_d b"] i(3) m(3) by auto
  then have "?C < 2 ^ 63 - 1" by simp
  with rng have "sint (current ?b') < 2 ^ 63 - 1" by linarith
  then have ne: "current ?b' \<noteq> MaxInt64" using sint_MaxInt64 [of "current ?b'"] by auto
  from Int63n_returns [OF _ ne, of r'] rng
  show "returns_nonneg (fst (Next P b r'))"
    by (auto simp: Next_out [of P b r'] returns_nonneg_def)
qed

lemma run_nonneg:
  assumes "0 \<le> sint (initial b)" "sint (initial b) \<le> int (k * 2 ^ j)" "initial b \<noteq> MaxInt64"
    and "0 \<le> sint (max_d b)" "sint (max_d b) \<le> int (k * 2 ^ j)" "max_d b \<noteq> MaxInt64"
    and "k \<le> 2 ^ 53" "j \<le> 10"
    and "is_finite (decode (factor b))" "0 \<le> valof (decode (factor b))"
    and "of_nat (k * 2 ^ j) * valof (decode (factor b)) \<le> 2 ^ 63 - 1024"
    and "\<not> initialized b \<or>
            (0 \<le> sint (current b) \<and> sint (current b) \<le> max (sint (initial b)) (sint (max_d b)))"
  shows "list_all returns_nonneg (fst (run P b cs))"
  using assms
proof (induction cs arbitrary: b)
  case Nil
  show ?case by simp
next
  case (Cons c cs)
  show ?case
  proof (cases c)
    case (CallNext r)
    let ?b' = "snd (Next P b r)"
    note n = Next_keeps_nonneg [OF Cons.prems, of P r]
    note p = Next_params [of P b r]
    have "list_all returns_nonneg (fst (run P ?b' cs))"
      using Cons.prems n(2,3) by (intro Cons.IH) (simp_all add: p)
    then show ?thesis using n(1) CallNext by simp
  next
    case CallReset
    have "list_all returns_nonneg (fst (run P (Reset b) cs))"
      using Cons.prems(1-11) by (intro Cons.IH) (simp_all add: Reset_def)
    then show ?thesis using CallReset by simp
  qed
qed

lemma Next_zero:
  assumes "initial b = 0" "current b = 0" "0 \<le> sint (max_d b)" "is_finite (decode (factor b))"
  shows "fst (Next P b r) = Inr 0" and "current (snd (Next P b r)) = 0"
proof -
  have s: "step P (factor b) (max_d b) 0 = 0"
    using assms(3) by (simp add: step_def grow_zero [OF assms(4)])
  show c: "current (snd (Next P b r)) = 0"
    using assms(1,2) s by (cases "initialized b") (simp_all add: Next_started Next_unstarted)
  show "fst (Next P b r) = Inr 0"
    by (simp add: Next_out [of P b r] c Int63n_def)
qed

lemma run_zero:
  assumes "initial b = 0" "current b = 0" "0 \<le> sint (max_d b)" "is_finite (decode (factor b))"
  shows "list_all (\<lambda>out. out = Inr 0) (fst (run P b cs))"
  using assms
proof (induction cs arbitrary: b)
  case Nil
  show ?case by simp
next
  case (Cons c cs)
  show ?case
  proof (cases c)
    case (CallNext r)
    note z = Next_zero [OF Cons.prems, of P r]
    note p = Next_params [of P b r]
    have "list_all (\<lambda>out. out = Inr 0) (fst (run P (snd (Next P b r)) cs))"
      using Cons.prems z(2) by (intro Cons.IH) (simp_all add: p)
    then show ?thesis using z(1) CallNext by simp
  next
    case CallReset
    have "list_all (\<lambda>out. out = Inr 0) (fst (run P (Reset b) cs))"
      using Cons.prems by (intro Cons.IH) (simp_all add: Reset_def)
    then show ?thesis using CallReset by simp
  qed
qed

section \<open>Evaluation at concrete inputs\<close>

lemmas ev = grow_def of_int64_def round_even_def exponent_of_def significand_of_def
  bitlen.simps trunc_int_def decode_def Let_def pow2.simps

lemma decode_two: "decode 0x4000000000000000 = Finite False (2 ^ 52) (- 51)"
  by (simp add: decode_def)

lemma decode_half: "decode 0x3FE0000000000000 = Finite False (2 ^ 52) (- 53)"
  by (simp add: decode_def)

lemma valof_two: "valof (decode 0x4000000000000000) = 2"
  by (simp add: decode_two pow2.simps)

lemma valof_half: "valof (decode 0x3FE0000000000000) = 1 / 2"
  by (simp add: decode_half pow2.simps)

text \<open>
  The arithmetic of the model on known binary64 results: 0.1 * 3 is
  0.30000000000000004, \<open>10\<^sup>3\<^sup>0\<^sup>8 * 10\<close> overflows to infinity, half of the smallest
  subnormal is a tie that goes to the even 0, \<open>2\<^sup>5\<^sup>3 + 3\<close> is a tie that goes to
  \<open>2\<^sup>5\<^sup>3 + 4\<close>, the largest \<^verbatim>\<open>int64\<close> becomes \<open>2\<^sup>6\<^sup>3\<close>, and -3.5 truncates to -3.
\<close>

lemma binary64_examples:
  "valof (fmul (decode 0x3FB999999999999A) (decode 0x4008000000000000))
     = valof (decode 0x3FD3333333333334)"
  "fmul (decode 0x7FE1CCF385EBC8A0) (decode 0x4024000000000000) = Infinity False"
  "valof (fmul (decode 0x0000000000000001) (decode 0x3FE0000000000000)) = 0"
  "valof (of_int64 0x20000000000003) = 2 ^ 53 + 4"
  "valof (of_int64 0x7FFFFFFFFFFFFFFF) = 2 ^ 63"
  "to_int64 P (decode 0xC00C000000000000) = - 3"
  by (simp_all add: ev)

section \<open>Reset\<close>

text \<open>
  C6, as the code has it: \<^verbatim>\<open>Reset\<close> clears \<open>initialized\<close> and writes no other
  field; \<open>current\<close> keeps the value of the last \<^verbatim>\<open>Next\<close>.
\<close>

theorem Reset_frame:
  "initialized (Reset b) = False \<and> current (Reset b) = current b \<and>
   initial (Reset b) = initial b \<and> factor (Reset b) = factor b \<and>
   max_d (Reset b) = max_d b \<and> withJitter (Reset b) = withJitter b"
  by (simp add: Reset_def)

text \<open>
  C6, as the claim states it, fails: after one \<^verbatim>\<open>Next\<close> of a calculator with
  \<open>initial = 100\<close>, \<^verbatim>\<open>Reset\<close> leaves \<open>current = 100\<close>, not zero.
\<close>

theorem Reset_keeps_current_counterexample:
  "current (Reset (snd (Next amd64 (New 100 0x4000000000000000 1000 [WithJitter False]) 0))) = 100 \<and>
   current (Reset (snd (Next amd64 (New 100 0x4000000000000000 1000 [WithJitter False]) 0))) \<noteq> 0"
  by (simp add: Reset_def Next_def New_def WithJitter_def)


text \<open>
  C10: \<^verbatim>\<open>Reset\<close> leaves the stale \<open>current\<close> in place, and still every sequence of
  \<^verbatim>\<open>Next\<close> calls after it gives, draw for draw, what the same calls give on a new
  calculator with the same \<open>initial\<close>, \<open>factor\<close>, \<open>max\<close> and jitter flag; this holds
  from every state, reachable or not.
\<close>

theorem Reset_like_New:
  "nexts P (Reset (snd (run P (New i f m [WithJitter j]) cs))) rs =
     nexts P (New i f m [WithJitter j]) rs \<and>
   nexts P (Reset b) rs = nexts P (New (initial b) (factor b) (max_d b) [WithJitter (withJitter b)]) rs"
proof -
  have g: "nexts P (Reset b) rs =
      nexts P (New (initial b) (factor b) (max_d b) [WithJitter (withJitter b)]) rs" for b
    by (cases rs) (simp_all add: Next_Reset)
  let ?b = "snd (run P (New i f m [WithJitter j]) cs)"
  have "initial ?b = i" "factor ?b = f" "max_d ?b = m" "withJitter ?b = j"
    using run_params [of P "New i f m [WithJitter j]" cs] by (simp_all add: New_WithJitter)
  then show ?thesis using g [of ?b] g [of b] by simp
qed

section \<open>The first call\<close>

text \<open>
  C2, amended: the first \<^verbatim>\<open>Next\<close> of a new calculator, or after a \<^verbatim>\<open>Reset\<close> that
  follows any calls, sets \<open>current = initial\<close> whatever \<open>factor\<close> and \<open>max\<close> are
  (also when \<open>initial > max\<close>); it returns \<open>initial\<close> without jitter, and with jitter,
  when \<open>0 \<le> initial < MaxInt64\<close>, a value of \<open>[0, initial]\<close>.
\<close>

theorem first_Next:
  assumes "b = New i f m [WithJitter j] \<or> b = Reset (snd (run P (New i f m [WithJitter j]) cs))"
    and "j \<longrightarrow> 0 \<le> sint i \<and> i \<noteq> MaxInt64"
  shows "current (snd (Next P b r)) = i \<and> initialized (snd (Next P b r)) \<and>
         (if j then \<exists>v. fst (Next P b r) = Inr v \<and> 0 \<le> sint v \<and> sint v \<le> sint i
          else fst (Next P b r) = Inr i)"
proof -
  let ?n = "New i f m [WithJitter j]"
  have "initial (snd (run P ?n cs)) = i" "factor (snd (run P ?n cs)) = f"
    "max_d (snd (run P ?n cs)) = m" "withJitter (snd (run P ?n cs)) = j"
    using run_params [of P ?n cs] by (simp_all add: New_WithJitter)
  then have "Next P (Reset (snd (run P ?n cs))) r = Next P ?n r"
    using Next_Reset [of P "snd (run P ?n cs)" r] by simp
  with assms(1) have eq: "Next P b r = Next P ?n r" by auto
  have n: "fst (Next P b r) = (if j then Int63n (i + 1) r else Inr i)"
    "current (snd (Next P b r)) = i" "initialized (snd (Next P b r))"
    by (simp_all add: eq Next_first New_WithJitter)
  show ?thesis
  proof (cases j)
    case True
    with assms(2) have "0 \<le> sint i" "i \<noteq> MaxInt64" by simp_all
    from Int63n_returns [OF this, of r] True show ?thesis by (simp add: n)
  next
    case False
    then show ?thesis by (simp add: n)
  qed
qed

theorem first_Next_witness:
  "current (snd (Next amd64 (New 1000 0x4000000000000000 500 [WithJitter True]) 7)) = 1000 \<and>
   (\<exists>v. fst (Next amd64 (New 1000 0x4000000000000000 500 [WithJitter True]) 7) = Inr v \<and>
        0 \<le> sint v \<and> sint v \<le> 1000)"
  using first_Next [of "New 1000 0x4000000000000000 500 [WithJitter True]" 1000
      "0x4000000000000000" 500 True amd64 "[]" 7]
  by (simp add: MaxInt64_def)

text \<open>
  C2, as the claim states it (for every \<open>initial\<close>), fails with jitter: for
  \<open>initial = -1\<close> the argument of \<^verbatim>\<open>rand.Int63n\<close> is 0, and for the largest
  \<^verbatim>\<open>int64\<close> it wraps around to the smallest; both calls panic.
\<close>

theorem first_Next_panics_counterexample:
  "fst (Next amd64 (New (- 1) 0x4000000000000000 1000 [WithJitter True]) 0) = Inl Panic \<and>
   fst (Next amd64 (New MaxInt64 0x4000000000000000 MaxInt64 [WithJitter True]) 0) = Inl Panic"
  by (simp add: Next_first New_WithJitter Int63n_def MaxInt64_def)

section \<open>Jitter\<close>

text \<open>
  For the same parameters and the same sequence of \<^verbatim>\<open>Next\<close> and \<^verbatim>\<open>Reset\<close> calls,
  the outcomes with jitter are related, position by position, to the outcomes without:
  a returned value lies in \<open>[0, U]\<close>, and the draw panics only where \<open>U < 0\<close> or
  \<open>U = MaxInt64\<close>.
\<close>

lemma jitter_bounds:
  "list_all2 bounded_by (fst (run P (New i f m [WithJitter False]) cs))
     (fst (run P (New i f m [WithJitter True]) cs)) \<and>
   list_all2 bounded_by (fst (run P (New i f m [WithJitter False]) cs))
     (fst (run P (New i f m []) cs))"
proof -
  let ?b = "New i f m []"
  have "?b\<lparr>withJitter := False\<rparr> = New i f m [WithJitter False]"
    "?b\<lparr>withJitter := True\<rparr> = New i f m [WithJitter True]"
    "New i f m [] = New i f m [WithJitter True]"
    by (simp_all add: New_WithJitter New_default)
  then show ?thesis using run_bounded_by [of P ?b cs] by simp
qed

text \<open>
  C3, amended: for the same parameters and the same sequence of \<^verbatim>\<open>Next\<close> and
  \<^verbatim>\<open>Reset\<close> calls, whatever the draws are, if the \<open>n\<close>-th \<^verbatim>\<open>Next\<close> without jitter
  returns \<open>U\<close> with \<open>0 \<le> U < MaxInt64\<close>, then the \<open>n\<close>-th \<^verbatim>\<open>Next\<close> with jitter
  (set by the option or by default) returns, and returns a value of the closed range
  \<open>[0, U]\<close>.
\<close>

theorem jitter_in_range:
  assumes "n < length (fst (run P (New i f m [WithJitter False]) cs))"
    and "fst (run P (New i f m [WithJitter False]) cs) ! n = Inr U"
    and "0 \<le> sint U" "U \<noteq> MaxInt64"
  shows "length (fst (run P (New i f m [WithJitter True]) cs)) =
           length (fst (run P (New i f m [WithJitter False]) cs)) \<and>
         (\<exists>v. fst (run P (New i f m [WithJitter True]) cs) ! n = Inr v \<and>
              0 \<le> sint v \<and> sint v \<le> sint U) \<and>
         (\<exists>v. fst (run P (New i f m []) cs) ! n = Inr v \<and> 0 \<le> sint v \<and> sint v \<le> sint U)"
proof -
  let ?u = "fst (run P (New i f m [WithJitter False]) cs)"
  let ?j = "fst (run P (New i f m [WithJitter True]) cs)"
  let ?b = "New i f m []"
  have e: "?b\<lparr>withJitter := False\<rparr> = New i f m [WithJitter False]"
    "?b\<lparr>withJitter := True\<rparr> = New i f m [WithJitter True]"
    "New i f m [] = New i f m [WithJitter True]"
    by (simp_all add: New_WithJitter New_default)
  have l: "list_all2 bounded_by ?u ?j" using run_bounded_by [of P ?b cs] by (simp only: e(1,2))
  then have len: "length ?j = length ?u" by (simp add: list_all2_lengthD)
  from l assms(1) have "bounded_by (?u ! n) (?j ! n)" by (rule list_all2_nthD)
  then have "jitter_of U (?j ! n)" by (simp add: assms(2) bounded_by_def)
  moreover have "\<not> sint U < 0" using assms(3) by simp
  ultimately have "\<exists>v. ?j ! n = Inr v \<and> 0 \<le> sint v \<and> sint v \<le> sint U"
    using assms(4) by (cases "?j ! n") (simp_all add: jitter_of_def)
  then show ?thesis using len by (simp add: e(3))
qed

theorem jitter_in_range_witness:
  "\<exists>v. fst (run amd64 (New 100000000 0x4000000000000000 1000000000 [WithJitter True])
           [CallNext 5, CallNext 123, CallReset, CallNext 9]) ! Suc 0 = Inr v \<and>
        0 \<le> sint v \<and> sint v \<le> sint (200000000 :: Duration)"
proof -
  have r: "fst (run amd64 (New 100000000 0x4000000000000000 1000000000 [WithJitter False])
      [CallNext 5, CallNext 123, CallReset, CallNext 9]) = [Inr 100000000, Inr 200000000, Inr 100000000]"
    by (simp add: Next_def New_def WithJitter_def Reset_def ev)
  have h: "Suc 0 < length (fst (run amd64 (New 100000000 0x4000000000000000 1000000000 [WithJitter False])
      [CallNext 5, CallNext 123, CallReset, CallNext 9]))"
    "fst (run amd64 (New 100000000 0x4000000000000000 1000000000 [WithJitter False])
      [CallNext 5, CallNext 123, CallReset, CallNext 9]) ! Suc 0 = Inr 200000000"
    "0 \<le> sint (200000000 :: Duration)" "(200000000 :: Duration) \<noteq> MaxInt64"
    by (simp_all only: r) (simp_all add: MaxInt64_def)
  from jitter_in_range [OF h] show ?thesis by blast
qed

text \<open>
  C3, as the claim states it (for every call), fails: with \<open>initial = max = MaxInt64\<close> and
  factor 1.0 the first call without jitter returns \<open>MaxInt64\<close>, so the range is not empty,
  and with jitter it panics, since \<open>current + 1\<close> wraps around; with \<open>initial = -1\<close> the
  range is empty and the call with jitter panics.
\<close>

theorem jitter_panics_counterexample:
  "fst (run amd64 (New MaxInt64 0x3FF0000000000000 MaxInt64 [WithJitter False]) [CallNext 7])
     = [Inr MaxInt64] \<and>
   0 \<le> sint MaxInt64 \<and>
   fst (run amd64 (New MaxInt64 0x3FF0000000000000 MaxInt64 [WithJitter True]) [CallNext 7])
     = [Inl Panic] \<and>
   fst (run amd64 (New (- 1) 0x4000000000000000 1000 [WithJitter False]) [CallNext 7])
     = [Inr (- 1)] \<and>
   fst (run amd64 (New (- 1) 0x4000000000000000 1000 [WithJitter True]) [CallNext 7])
     = [Inl Panic]"
  by (simp add: Next_def New_def WithJitter_def Int63n_def MaxInt64_def)

text \<open>The upper end of the range is returned when the generator gives it.\<close>

lemma Next_attains:
  assumes "withJitter b" "0 \<le> sint (current (snd (Next P b r)))"
    "current (snd (Next P b r)) \<noteq> MaxInt64"
  shows "fst (Next P b (nat (sint (current (snd (Next P b r)))))) = Inr (current (snd (Next P b r)))"
proof -
  let ?u = "current (snd (Next P b r))"
  have "snd (Next P b (nat (sint ?u))) = snd (Next P b r)"
    by (simp add: Next_def Let_def)
  then have "fst (Next P b (nat (sint ?u))) = Int63n (?u + 1) (nat (sint ?u))"
    using assms(1) Next_out [of P b "nat (sint ?u)"] by simp
  then show ?thesis using Int63n_attains [OF assms(2,3)] by simp
qed

section \<open>Growth and clamp\<close>

text \<open>
  The sequences listed in the tests of the package.
\<close>

lemma spec_examples:
  "nexts P (New 100000000 0x4000000000000000 1000000000 [WithJitter False]) [0, 0, 0, 0]
     = [Inr 100000000, Inr 200000000, Inr 400000000, Inr 800000000]"
  "nexts P (New 500000000 0x4000000000000000 800000000 [WithJitter False]) [0, 0, 0]
     = [Inr 500000000, Inr 800000000, Inr 800000000]"
  "nexts P (New 200000000 0x3FF0000000000000 1000000000 [WithJitter False]) [0, 0, 0]
     = [Inr 200000000, Inr 200000000, Inr 200000000]"
  by (simp_all add: Next_def New_def WithJitter_def ev)

text \<open>
  The product is rounded to binary64 before it is truncated: 3 times the \<^verbatim>\<open>float64\<close>
  nearest to 4/3, which is below 4/3, gives 4.
\<close>

lemma rounded_before_truncation:
  "valof (decode 0x3FF5555555555555) < 4 / 3 \<and> grow P 3 0x3FF5555555555555 = 4"
  by (simp add: ev)

text \<open>
  C1, amended: without jitter, for a finite \<open>factor \<ge> 1\<close>, \<open>0 \<le> initial \<le> max \<le> 2\<^sup>5\<^sup>3\<close>
  and \<open>max * factor \<le> 2\<^sup>6\<^sup>3 - 1024\<close>, the calls return \<open>unjittered 0, unjittered 1, \<dots>\<close>:
  the first value is \<open>initial\<close>, the values never decrease and never exceed \<open>max\<close>;
  where the exact product \<open>current * factor\<close> reaches \<open>max\<close> the next value and every
  later one is exactly \<open>max\<close>, and below \<open>max\<close> the next value is the \<^verbatim>\<open>float64\<close>
  product truncated, which lies between the floor and the ceiling of the exact product.
\<close>

theorem unjittered_growth:
  assumes "0 \<le> sint i" "sint i \<le> sint m" "sint m \<le> 2 ^ 53"
    "is_finite (decode f)" "1 \<le> valof (decode f)"
    "of_int (sint m) * valof (decode f) \<le> 2 ^ 63 - 1024"
  shows "nexts P (New i f m [WithJitter False]) rs =
           map (\<lambda>k. Inr (unjittered P i f m k)) [0..<length rs] \<and>
         unjittered P i f m 0 = i \<and>
         0 \<le> sint (unjittered P i f m k) \<and>
         sint (unjittered P i f m k) \<le> sint (unjittered P i f m (Suc k)) \<and>
         sint (unjittered P i f m (Suc k)) \<le> sint m \<and>
         (if of_int (sint m) \<le> of_int (sint (unjittered P i f m k)) * valof (decode f)
          then unjittered P i f m (Suc k + n) = m
          else unjittered P i f m (Suc k) = grow P (unjittered P i f m k) f \<and>
               \<lfloor>of_int (sint (unjittered P i f m k)) * valof (decode f)\<rfloor>
                 \<le> sint (unjittered P i f m (Suc k)) \<and>
               sint (unjittered P i f m (Suc k))
                 \<le> \<lceil>of_int (sint (unjittered P i f m k)) * valof (decode f)\<rceil>)"
proof -
  let ?u = "unjittered P i f m"
  from unjittered_range [OF assms, of P k] have c: "0 \<le> sint (?u k)" "sint (?u k) \<le> sint m"
    by simp_all
  have m0: "0 \<le> sint m" using assms(1,2) by simp
  note sg = step_growth [where P = P, OF assms(3-6) c]
  have a: "?u (Suc k + n) = m" if "of_int (sint m) \<le> of_int (sint (?u k)) * valof (decode f)"
  proof -
    from sg(3) [OF that] have "?u (Suc k) = m" by simp
    from unjittered_pinned [OF m0 assms(3-6) this] show ?thesis .
  qed
  have b: "?u (Suc k) = grow P (?u k) f \<and>
      \<lfloor>of_int (sint (?u k)) * valof (decode f)\<rfloor> \<le> sint (?u (Suc k)) \<and>
      sint (?u (Suc k)) \<le> \<lceil>of_int (sint (?u k)) * valof (decode f)\<rceil>"
    if "\<not> of_int (sint m) \<le> of_int (sint (?u k)) * valof (decode f)"
  proof -
    from that have "of_int (sint (?u k)) * valof (decode f) < of_int (sint m)" by simp
    then show ?thesis unfolding unjittered.simps(2) by (rule sg(4))
  qed
  have "nexts P (New i f m [WithJitter False]) rs = map (\<lambda>k. Inr (?u k)) [0..<length rs]"
    by (rule nexts_unjittered)
  moreover have "?u 0 = i" by simp
  moreover have "sint (?u k) \<le> sint (?u (Suc k))" using sg(1) by simp
  moreover have "sint (?u (Suc k)) \<le> sint m" using sg(2) by simp
  ultimately show ?thesis using c(1) a b by (simp only: if_split) blast
qed

theorem unjittered_growth_witness:
  "nexts amd64 (New 100000000 0x4000000000000000 1000000000 [WithJitter False]) [0, 0, 0, 0, 0, 0] =
     map (\<lambda>k. Inr (unjittered amd64 100000000 0x4000000000000000 1000000000 k)) [0..<6] \<and>
   unjittered amd64 100000000 0x4000000000000000 1000000000 3 = 800000000 \<and>
   unjittered amd64 100000000 0x4000000000000000 1000000000 (Suc 3 + 1) = 1000000000"
proof -
  let ?u = "unjittered amd64 100000000 0x4000000000000000 1000000000"
  have sint1: "sint (1000000000 :: Duration) = 1000000000" by simp
  have h: "0 \<le> sint (100000000 :: Duration)"
    "sint (100000000 :: Duration) \<le> sint (1000000000 :: Duration)"
    "sint (1000000000 :: Duration) \<le> 2 ^ 53" "is_finite (decode 0x4000000000000000)"
    "1 \<le> valof (decode 0x4000000000000000)"
    "of_int (sint (1000000000 :: Duration)) * valof (decode 0x4000000000000000) \<le> 2 ^ 63 - 1024"
    by (simp_all only: valof_two sint1) (simp_all add: decode_two)
  have u3: "?u 3 = 800000000"
    by (simp add: numeral_3_eq_3 step_def ev)
  have c: "of_int (sint (1000000000 :: Duration)) \<le> of_int (sint (?u 3)) * valof (decode 0x4000000000000000)"
    by (simp only: u3 valof_two) simp
  note t = unjittered_growth [OF h, of amd64 "[0, 0, 0, 0, 0, 0]" 3 1]
  from t have "nexts amd64 (New 100000000 0x4000000000000000 1000000000 [WithJitter False])
      [0, 0, 0, 0, 0, 0] = map (\<lambda>k. Inr (?u k)) [0..<length [0, 0, 0, 0, 0, 0 :: nat]]"
    by (rule conjunct1)
  moreover have "length [0, 0, 0, 0, 0, 0 :: nat] = 6" by simp
  moreover from t c have "?u (Suc 3 + 1) = 1000000000" by (simp only: if_True)
  ultimately show ?thesis using u3 by (simp only: simp_thms)
qed

text \<open>
  C1, as the claim states it (for every \<open>initial\<close> and \<open>max\<close>), fails: with
  \<open>initial = 1000 > max = 500\<close> the second value is smaller than the first, and with
  \<open>initial = 2\<^sup>5\<^sup>3 + 1\<close> and factor 1.0 the conversion to \<^verbatim>\<open>float64\<close> loses the last bit.
\<close>

theorem not_monotone_counterexample:
  "nexts amd64 (New 1000 0x4000000000000000 500 [WithJitter False]) [0, 0] = [Inr 1000, Inr 500] \<and>
   nexts amd64 (New 0x20000000000001 0x3FF0000000000000 MaxInt64 [WithJitter False]) [0, 0]
     = [Inr 0x20000000000001, Inr 0x20000000000000]"
  by (simp add: Next_def New_def WithJitter_def MaxInt64_def ev)

section \<open>Non-negative results\<close>

text \<open>
  C4, amended: let \<open>initial\<close> and \<open>max\<close> be non-negative, in either order, below the
  largest \<^verbatim>\<open>int64\<close> and at most a bound \<open>B = k * 2\<^sup>j\<close> that \<^verbatim>\<open>float64\<close> holds
  exactly (\<open>k \<le> 2\<^sup>5\<^sup>3\<close>, \<open>j \<le> 10\<close>; every value up to \<open>2\<^sup>5\<^sup>3\<close> is such a bound), and
  let \<open>factor\<close> be finite and not negative (zero and values below 1 included) with
  \<open>B * factor \<le> 2\<^sup>6\<^sup>3 - 1024\<close>. Then, with or without jitter and on every platform,
  every \<^verbatim>\<open>Next\<close> of every sequence of \<^verbatim>\<open>Next\<close> and \<^verbatim>\<open>Reset\<close> calls returns (it does
  not panic) a duration that is not negative.
\<close>

theorem Next_never_negative:
  assumes "0 \<le> sint i" "sint i \<le> int (k * 2 ^ j)" "i \<noteq> MaxInt64"
    "0 \<le> sint m" "sint m \<le> int (k * 2 ^ j)" "m \<noteq> MaxInt64"
    "k \<le> 2 ^ 53" "j \<le> 10"
    "is_finite (decode f)" "0 \<le> valof (decode f)"
    "of_nat (k * 2 ^ j) * valof (decode f) \<le> 2 ^ 63 - 1024"
  shows "list_all returns_nonneg (fst (run P (New i f m [WithJitter w]) cs)) \<and>
         list_all returns_nonneg (fst (run P (New i f m []) cs))"
proof -
  have "list_all returns_nonneg (fst (run P (New i f m [WithJitter w]) cs))" for w
    using assms by (intro run_nonneg [where k = k and j = j]) (simp_all add: New_WithJitter)
  moreover have "New i f m [] = New i f m [WithJitter True]"
    by (simp add: New_WithJitter New_default)
  ultimately show ?thesis by simp
qed

theorem Next_never_negative_witness:
  "list_all returns_nonneg
     (fst (run arm64 (New 0x4000000000000000 0x3FE0000000000000 500000000 [WithJitter True])
        [CallNext 7, CallNext 123456789, CallReset, CallNext 5]))"
proof -
  have s1: "sint (0x4000000000000000 :: Duration) = 2 ^ 62" by simp
  have s2: "sint (500000000 :: Duration) = 500000000" by simp
  have h: "0 \<le> sint (0x4000000000000000 :: Duration)"
    "sint (0x4000000000000000 :: Duration) \<le> int (2 ^ 52 * 2 ^ 10)"
    "(0x4000000000000000 :: Duration) \<noteq> MaxInt64"
    "0 \<le> sint (500000000 :: Duration)" "sint (500000000 :: Duration) \<le> int (2 ^ 52 * 2 ^ 10)"
    "(500000000 :: Duration) \<noteq> MaxInt64"
    "(2 ^ 52 :: nat) \<le> 2 ^ 53" "(10 :: nat) \<le> 10"
    "is_finite (decode 0x3FE0000000000000)" "0 \<le> valof (decode 0x3FE0000000000000)"
    "of_nat (2 ^ 52 * 2 ^ 10) * valof (decode 0x3FE0000000000000) \<le> 2 ^ 63 - 1024"
    by (simp_all only: valof_half s1 s2) (simp_all add: decode_half MaxInt64_def)
  from Next_never_negative [OF h] show ?thesis by blast
qed

text \<open>
  C4, as the claim states it, fails for a negative \<open>initial\<close> and for a negative
  \<open>factor\<close>: without jitter a negative duration is returned, with jitter
  \<^verbatim>\<open>rand.Int63n\<close> panics. It panics as well where \<open>initial\<close> is the largest
  \<^verbatim>\<open>int64\<close>, since \<open>current + 1\<close> wraps around.
\<close>

theorem negative_or_panic_counterexample:
  "nexts amd64 (New (- 1) 0x4000000000000000 1000 [WithJitter False]) [0] = [Inr (- 1)] \<and>
   sint (- 1 :: Duration) < 0 \<and>
   nexts amd64 (New (- 1) 0x4000000000000000 1000 []) [0] = [Inl Panic] \<and>
   nexts amd64 (New 100 0xBFF0000000000000 1000 [WithJitter False]) [0, 0] = [Inr 100, Inr (- 100)] \<and>
   nexts amd64 (New 100 0xBFF0000000000000 1000 []) [7, 7] = [Inr 7, Inl Panic] \<and>
   nexts amd64 (New MaxInt64 0x3FF0000000000000 MaxInt64 []) [7] = [Inl Panic]"
  by (simp add: Next_def New_def WithJitter_def Int63n_def MaxInt64_def ev)

section \<open>Zero initial\<close>

text \<open>
  C8, amended: if \<open>initial = 0\<close>, \<open>max \<ge> 0\<close> and \<open>factor\<close> is finite (of either sign),
  every \<^verbatim>\<open>Next\<close> of every sequence of calls returns exactly 0, with or without jitter.
\<close>

theorem zero_initial_stays_zero:
  assumes "0 \<le> sint m" "is_finite (decode f)"
  shows "list_all (\<lambda>out. out = Inr 0) (fst (run P (New 0 f m [WithJitter j]) cs)) \<and>
         list_all (\<lambda>out. out = Inr 0) (fst (run P (New 0 f m []) cs))"
proof -
  have "list_all (\<lambda>out. out = Inr 0) (fst (run P (New 0 f m [WithJitter j]) cs))" for j
    using assms by (intro run_zero) (simp_all add: New_WithJitter)
  moreover have "New 0 f m [] = New 0 f m [WithJitter True]"
    by (simp add: New_WithJitter New_default)
  ultimately show ?thesis by simp
qed

theorem zero_initial_stays_zero_witness:
  "list_all (\<lambda>out. out = Inr 0)
     (fst (run amd64 (New 0 0x4000000000000000 1000 [WithJitter True])
        [CallNext 5, CallNext 9, CallReset, CallNext 2]))"
proof -
  have h: "0 \<le> sint (1000 :: Duration)" "is_finite (decode 0x4000000000000000)"
    by (simp_all add: decode_def)
  from zero_initial_stays_zero [OF h] show ?thesis by blast
qed

text \<open>
  C8, as the claim states it (for every \<open>factor\<close> and \<open>max\<close>), fails: a negative \<open>max\<close>
  is below the candidate 0, so the second call is clamped to \<open>max\<close> (and panics with
  jitter); and 0 times an infinite factor is a NaN, whose conversion is left to the
  platform.
\<close>

theorem zero_initial_counterexample:
  "nexts amd64 (New 0 0x4000000000000000 (- 1) [WithJitter False]) [0, 0] = [Inr 0, Inr (- 1)] \<and>
   nexts amd64 (New 0 0x4000000000000000 (- 1) []) [0, 0] = [Inr 0, Inl Panic] \<and>
   nexts amd64 (New 0 0x7FF0000000000000 1000 [WithJitter False]) [0, 0] = [Inr 0, Inr MinInt64]"
  by (simp add: Next_def New_def WithJitter_def Int63n_def amd64_def MinInt64_def ev)

section \<open>Overflow of the growth step\<close>

text \<open>
  C7 fails on amd64: with \<open>initial\<close> one second, factor \<open>10\<^sup>1\<^sup>0\<close> and \<open>max\<close> ten seconds
  the product of the second call is \<open>10\<^sup>1\<^sup>9 > 2\<^sup>6\<^sup>3\<close>; the conversion gives the smallest
  \<^verbatim>\<open>int64\<close>, which is not above \<open>max\<close>, so it is stored and returned (with jitter the
  draw panics). On arm64 the conversion saturates and the clamp gives \<open>max\<close>.
\<close>

theorem overflow_wraps_negative:
  "valof (decode 0x4202A05F20000000) = 10000000000 \<and>
   nexts amd64 (New 1000000000 0x4202A05F20000000 10000000000 [WithJitter False]) [0, 0]
     = [Inr 1000000000, Inr MinInt64] \<and>
   sint MinInt64 < 0 \<and>
   nexts amd64 (New 1000000000 0x4202A05F20000000 10000000000 []) [5, 5] = [Inr 5, Inl Panic] \<and>
   nexts arm64 (New 1000000000 0x4202A05F20000000 10000000000 [WithJitter False]) [0, 0]
     = [Inr 1000000000, Inr 10000000000]"
  by (simp add: Next_def New_def WithJitter_def Int63n_def amd64_def MinInt64_def MaxInt64_def ev)

end
